theory Spec2Isabelle
  imports Main "HOL-Library.Multiset"
begin

section \<open>SortedList of the C Macro Collections library\<close>

text \<open>
  A shallow embedding of \<^verbatim>\<open>src/cmc/sortedlist.h\<close> (the macro
  \<^verbatim>\<open>CMC_GENERATE_SORTEDLIST_SOURCE(PFX, SNAME, V)\<close>) and of the iterator part of
  \<^verbatim>\<open>src/cmc/cmc/sortedlist/ext/code.h\<close>. The element type \<open>V\<close> is the type
  variable \<open>'v\<close>; its zero value \<^verbatim>\<open>(V){ 0 }\<close> is \<open>0\<close> of the class \<open>zero\<close>.
  A function \<^verbatim>\<open>PFX##_name\<close> is the constant \<open>PFX_name\<close>.
\<close>

subsection \<open>The type \<^verbatim>\<open>size_t\<close>\<close>

text \<open>
  Values of type \<^verbatim>\<open>size_t\<close> are natural numbers below \<open>2 ^ 64\<close>; the unsigned
  arithmetic of C wraps around and is written out where a result may leave that range.
\<close>

definition size_max :: nat where
  "size_max = 2 ^ 64 - 1"

definition sz_add :: "nat \<Rightarrow> nat \<Rightarrow> nat" where
  "sz_add a b = (a + b) mod 2 ^ 64"

definition sz_sub :: "nat \<Rightarrow> nat \<Rightarrow> nat" where
  "sz_sub a b = (a + 2 ^ 64 - b mod 2 ^ 64) mod 2 ^ 64"

definition sz_mul :: "nat \<Rightarrow> nat \<Rightarrow> nat" where
  "sz_mul a b = (a * b) mod 2 ^ 64"

subsection \<open>Memory accesses\<close>

text \<open>
  The buffer of a list is the HOL list of its allocated cells. An access outside
  the allocation, or through a null pointer, is undefined behaviour in C; here it is
  a value of the type \<open>error\<close>, and every function that touches memory returns
  \<open>error + result\<close>. An object has at most \<^verbatim>\<open>SIZE_MAX\<close> bytes, so no array has
  an element at index \<^verbatim>\<open>SIZE_MAX\<close>.
\<close>

datatype error = OutOfBounds | NullDeref

definition rd :: "'v list \<Rightarrow> nat \<Rightarrow> error + 'v" where
  "rd a i = (if i < length a \<and> i < size_max then Inr (a ! i) else Inl OutOfBounds)"

definition wr :: "'v list \<Rightarrow> nat \<Rightarrow> 'v \<Rightarrow> error + 'v list" where
  "wr a i v = (if i < length a \<and> i < size_max then Inr (a[i := v]) else Inl OutOfBounds)"

text \<open>
  \<^verbatim>\<open>memmove(a + dst, a + src, n * sizeof(V))\<close> and \<^verbatim>\<open>memcpy\<close> between two buffers:
  both ranges must lie inside their allocation.
\<close>

definition memmove :: "'v list \<Rightarrow> nat \<Rightarrow> nat \<Rightarrow> nat \<Rightarrow> error + 'v list" where
  "memmove a dst src n =
     (if src + n \<le> length a \<and> dst + n \<le> length a
      then Inr (take dst a @ take n (drop src a) @ drop (dst + n) a)
      else Inl OutOfBounds)"

definition memcpy :: "'v list \<Rightarrow> 'v list \<Rightarrow> nat \<Rightarrow> error + 'v list" where
  "memcpy dst src n =
     (if n \<le> length src \<and> n \<le> length dst
      then Inr (take n src @ drop n dst)
      else Inl OutOfBounds)"

subsection \<open>The structures\<close>

text \<open>
  \<^verbatim>\<open>struct cmc_alloc_node\<close>: the four allocation functions. What an allocator answers
  is outside the program, so the node records its answers: whether \<^verbatim>\<open>malloc\<close> of
  the list structure, \<^verbatim>\<open>calloc\<close> of \<open>n\<close> elements and \<^verbatim>\<open>realloc\<close> to \<open>n\<close> elements
  return a non-null pointer, and the indeterminate content \<open>junk i\<close> of a cell \<open>i\<close>
  that \<^verbatim>\<open>realloc\<close> adds.
\<close>

record 'v cmc_alloc_node =
  malloc_ok :: bool
  calloc_ok :: "nat \<Rightarrow> bool"
  realloc_ok :: "nat \<Rightarrow> bool"
  junk :: "nat \<Rightarrow> 'v"

text \<open>\<^verbatim>\<open>struct cmc_callbacks_sortedlist\<close>: four callbacks that no function calls.\<close>

datatype cmc_callbacks_sortedlist = Callbacks

text \<open>
  \<^verbatim>\<open>struct SNAME##_ftab_val\<close>: the comparator and the optional copy function. The
  slots \<^verbatim>\<open>str\<close>, \<^verbatim>\<open>free\<close>, \<^verbatim>\<open>hash\<close> and \<^verbatim>\<open>pri\<close> are used by none of the functions below.
\<close>

record 'v ftab_val =
  cmp :: "'v \<Rightarrow> 'v \<Rightarrow> int"
  cpy :: "('v \<Rightarrow> 'v) option"

text \<open>The flags \<^verbatim>\<open>cmc_flags = { 0, 1, 2, 3, 4, 5, 6, 7 }\<close>.\<close>

definition cmc_flags_OK :: int where "cmc_flags_OK = 0"
definition cmc_flags_ALLOC :: int where "cmc_flags_ALLOC = 1"
definition cmc_flags_EMPTY :: int where "cmc_flags_EMPTY = 2"
definition cmc_flags_NOT_FOUND :: int where "cmc_flags_NOT_FOUND = 3"
definition cmc_flags_INVALID :: int where "cmc_flags_INVALID = 4"
definition cmc_flags_OUT_OF_RANGE :: int where "cmc_flags_OUT_OF_RANGE = 5"

text \<open>
  \<^verbatim>\<open>struct SNAME\<close>. The pointers \<^verbatim>\<open>f_val\<close> and \<^verbatim>\<open>callbacks\<close> may be null (\<open>None\<close>).
  The members \<^verbatim>\<open>it_start\<close> and \<^verbatim>\<open>it_end\<close> always hold the same two functions.
\<close>

record 'v sortedlist =
  buffer :: "'v list"
  capacity :: nat
  count :: nat
  is_sorted :: bool
  flag :: int
  f_val :: "'v ftab_val option"
  alloc :: "'v cmc_alloc_node"
  callbacks :: "cmc_callbacks_sortedlist option"

text \<open>
  \<^verbatim>\<open>struct SNAME##_iter\<close>. The member \<^verbatim>\<open>target\<close> points to a list that the
  iterator functions only read: they take the list it points to as an argument.
\<close>

record iter =
  cursor :: nat
  start :: bool
  end' :: bool

subsection \<open>Construction\<close>

text \<open>
  \<^verbatim>\<open>PFX##_new\<close> uses the global \<^verbatim>\<open>cmc_alloc_node_default\<close>, the first argument here.
  The result \<open>None\<close> is the null pointer.
\<close>

definition PFX_new ::
  "'v::zero cmc_alloc_node \<Rightarrow> nat \<Rightarrow> 'v ftab_val option \<Rightarrow> 'v sortedlist option" where
  "PFX_new dflt cap fv =
     (if cap < 1 then None
      else case fv of None \<Rightarrow> None | Some _ \<Rightarrow>
        if \<not> malloc_ok dflt then None
        else if \<not> calloc_ok dflt cap then None
        else Some \<lparr>buffer = replicate cap 0, capacity = cap, count = 0,
                   is_sorted = False, flag = cmc_flags_OK, f_val = fv,
                   alloc = dflt, callbacks = None\<rparr>)"

definition PFX_new_custom ::
  "'v::zero cmc_alloc_node \<Rightarrow> nat \<Rightarrow> 'v ftab_val option \<Rightarrow> 'v cmc_alloc_node option \<Rightarrow>
     cmc_callbacks_sortedlist option \<Rightarrow> 'v sortedlist option" where
  "PFX_new_custom dflt cap fv al cb =
     (if cap < 1 then None
      else let a = (case al of None \<Rightarrow> dflt | Some a' \<Rightarrow> a') in
        if \<not> malloc_ok a then None
        else if \<not> calloc_ok a cap then None
        else Some \<lparr>buffer = replicate cap 0, capacity = cap, count = 0,
                   is_sorted = False, flag = cmc_flags_OK, f_val = fv,
                   alloc = a, callbacks = cb\<rparr>)"

subsection \<open>State queries\<close>

definition PFX_empty :: "'v sortedlist \<Rightarrow> bool" where
  "PFX_empty l = (count l = 0)"

definition PFX_full :: "'v sortedlist \<Rightarrow> bool" where
  "PFX_full l = (count l \<ge> capacity l)"

definition PFX_count :: "'v sortedlist \<Rightarrow> nat" where
  "PFX_count l = count l"

definition PFX_capacity :: "'v sortedlist \<Rightarrow> nat" where
  "PFX_capacity l = capacity l"

subsection \<open>Resize, insert, remove\<close>

text \<open>
  \<^verbatim>\<open>realloc(buffer, sizeof(V) * n)\<close>: the first cells are kept, the added ones are
  indeterminate (\<^verbatim>\<open>/* TODO zero out remaining slots */\<close>). The element size is a
  parameter of the instantiation; the byte count \<^verbatim>\<open>sizeof(V) * n\<close> is taken not to
  wrap around, so that a block for \<open>n\<close> elements has \<open>n\<close> cells.
\<close>

definition realloc_buf :: "'v cmc_alloc_node \<Rightarrow> 'v list \<Rightarrow> nat \<Rightarrow> 'v list" where
  "realloc_buf a b n = take n b @ map (junk a) [min n (length b)..<n]"

text \<open>
  \<^verbatim>\<open>PFX##_resize\<close>. When \<^verbatim>\<open>realloc\<close> returns null the list keeps its old pointer. For
  a request of size 0 an allocator may have freed the block before it returns null
  (the C library of GNU does): the old pointer then has no cell left to access.
\<close>

definition PFX_resize :: "'v sortedlist \<Rightarrow> nat \<Rightarrow> bool \<times> 'v sortedlist" where
  "PFX_resize l cap =
     (if capacity l = cap then (True, l)
      else if cap < count l then (False, l)
      else if \<not> realloc_ok (alloc l) cap
        then (False, if cap = 0 then l\<lparr>buffer := []\<rparr> else l)
      else (True, l\<lparr>buffer := realloc_buf (alloc l) (buffer l) cap, capacity := cap\<rparr>))"

definition PFX_insert :: "'v sortedlist \<Rightarrow> 'v \<Rightarrow> error + (bool \<times> 'v sortedlist)" where
  "PFX_insert l element =
     (let (ok, l1) = (if PFX_full l then PFX_resize l (sz_mul (capacity l) 2) else (True, l))
      in if \<not> ok then Inr (False, l1)
         else case wr (buffer l1) (count l1) element of
                Inl e \<Rightarrow> Inl e
              | Inr b \<Rightarrow> Inr (True, l1\<lparr>buffer := b, count := sz_add (count l1) 1,
                                        is_sorted := False\<rparr>))"

definition PFX_remove :: "'v::zero sortedlist \<Rightarrow> nat \<Rightarrow> error + (bool \<times> 'v sortedlist)" where
  "PFX_remove l index =
     (if index \<ge> count l then Inr (False, l)
      else case memmove (buffer l) index (index + 1) (count l - index) of
             Inl e \<Rightarrow> Inl e
           | Inr b \<Rightarrow>
               (case wr b (count l - 1) 0 of
                  Inl e \<Rightarrow> Inl e
                | Inr b' \<Rightarrow> Inr (True, l\<lparr>buffer := b', count := count l - 1\<rparr>)))"

text \<open>A run of inserts that stops at the first one that does not succeed.\<close>

fun inserts :: "'v sortedlist \<Rightarrow> 'v list \<Rightarrow> error + (bool \<times> 'v sortedlist)" where
  "inserts l [] = Inr (True, l)"
| "inserts l (x # xs) =
     (case PFX_insert l x of
        Inl e \<Rightarrow> Inl e
      | Inr (ok, l') \<Rightarrow> if ok then inserts l' xs else Inr (False, l'))"

subsection \<open>Sorting\<close>

text \<open>
  \<^verbatim>\<open>PFX##_impl_sort_insertion\<close>. The inner loop
  \<^verbatim>\<open>while (j > low && cmp(array[j - 1], _tmp_) > 0)\<close> returns the array and \<open>j\<close>.
\<close>

function ins_inner ::
  "'v list \<Rightarrow> ('v \<Rightarrow> 'v \<Rightarrow> int) \<Rightarrow> nat \<Rightarrow> 'v \<Rightarrow> nat \<Rightarrow> error + ('v list \<times> nat)" where
  "ins_inner array c low tmp j =
     (if j > low then
        (case rd array (j - 1) of
           Inl e \<Rightarrow> Inl e
         | Inr x \<Rightarrow>
             if c x tmp > 0 then
               (case wr array j x of
                  Inl e \<Rightarrow> Inl e
                | Inr a' \<Rightarrow> ins_inner a' c low tmp (j - 1))
             else Inr (array, j))
      else Inr (array, j))"
  by pat_completeness auto
termination
  by (relation "measure (\<lambda>(array, c, low, tmp, j). j)") auto

declare ins_inner.simps [simp del]

text \<open>The outer loop \<^verbatim>\<open>for (size_t i = low + 1; i <= high; i++)\<close>.\<close>

function ins_outer ::
  "'v list \<Rightarrow> ('v \<Rightarrow> 'v \<Rightarrow> int) \<Rightarrow> nat \<Rightarrow> nat \<Rightarrow> nat \<Rightarrow> error + 'v list" where
  "ins_outer array c low high i =
     (if i \<le> high then
        (case rd array i of
           Inl e \<Rightarrow> Inl e
         | Inr tmp \<Rightarrow>
             (case ins_inner array c low tmp i of
                Inl e \<Rightarrow> Inl e
              | Inr (a1, j) \<Rightarrow>
                  (case wr a1 j tmp of
                     Inl e \<Rightarrow> Inl e
                   | Inr a2 \<Rightarrow> ins_outer a2 c low high (sz_add i 1))))
      else Inr array)"
  by pat_completeness auto
termination
proof (relation "measure (\<lambda>(array, c, low, high, i). Suc high - i)", goal_cases)
  case 1
  show ?case by simp
next
  case (2 array c low high i tmp p a1 j a2)
  from \<open>rd array i = Inr tmp\<close> have "i < size_max"
    by (simp add: rd_def split: if_splits)
  then have "sz_add i 1 = Suc i"
    by (simp add: sz_add_def size_max_def)
  with \<open>i \<le> high\<close> show ?case by simp
qed

declare ins_outer.simps [simp del]

definition impl_sort_insertion ::
  "'v list \<Rightarrow> ('v \<Rightarrow> 'v \<Rightarrow> int) \<Rightarrow> nat \<Rightarrow> nat \<Rightarrow> error + 'v list" where
  "impl_sort_insertion array c low high = ins_outer array c low high (sz_add low 1)"

text \<open>
  The partition loop of \<^verbatim>\<open>PFX##_impl_sort_quicksort\<close>,
  \<^verbatim>\<open>for (size_t i = low; i < high; i++)\<close>, returns the array and \<^verbatim>\<open>pindex\<close>.
\<close>

function part_loop ::
  "'v list \<Rightarrow> ('v \<Rightarrow> 'v \<Rightarrow> int) \<Rightarrow> 'v \<Rightarrow> nat \<Rightarrow> nat \<Rightarrow> nat \<Rightarrow> error + ('v list \<times> nat)" where
  "part_loop array c pivot high i pindex =
     (if i < high then
        (case rd array i of
           Inl e \<Rightarrow> Inl e
         | Inr ai \<Rightarrow>
             if c ai pivot \<le> 0 then
               (case rd array pindex of
                  Inl e \<Rightarrow> Inl e
                | Inr ap \<Rightarrow>
                    (case wr array i ap of
                       Inl e \<Rightarrow> Inl e
                     | Inr a1 \<Rightarrow>
                         (case wr a1 pindex ai of
                            Inl e \<Rightarrow> Inl e
                          | Inr a2 \<Rightarrow> part_loop a2 c pivot high (i + 1) (sz_add pindex 1))))
             else part_loop array c pivot high (i + 1) pindex)
      else Inr (array, pindex))"
  by pat_completeness auto
termination
  by (relation "measure (\<lambda>(array, c, pivot, high, i, pindex). high - i)") auto

declare part_loop.simps [simp del]

text \<open>The exchange of \<^verbatim>\<open>array[pindex]\<close> and \<^verbatim>\<open>array[high]\<close> after the loop.\<close>

definition swap_cells :: "'v list \<Rightarrow> nat \<Rightarrow> nat \<Rightarrow> error + 'v list" where
  "swap_cells array i j =
     (case rd array i of
        Inl e \<Rightarrow> Inl e
      | Inr tmp \<Rightarrow>
          (case rd array j of
             Inl e \<Rightarrow> Inl e
           | Inr aj \<Rightarrow>
               (case wr array i aj of
                  Inl e \<Rightarrow> Inl e
                | Inr a1 \<Rightarrow> wr a1 j tmp)))"

text \<open>
  \<^verbatim>\<open>PFX##_impl_sort_quicksort\<close>. The \<^verbatim>\<open>while (low < high)\<close> loop and the recursive
  call are one recursive function; the subtractions \<^verbatim>\<open>pindex - 1\<close>, \<^verbatim>\<open>pindex - low\<close>
  and \<^verbatim>\<open>high - pindex\<close> are those of \<^verbatim>\<open>size_t\<close>. Its termination needs the bounds
  of \<^verbatim>\<open>pindex\<close> after the partition loop.
\<close>

lemma sz_add_eq: "a + b \<le> size_max \<Longrightarrow> sz_add a b = a + b"
  by (simp add: sz_add_def size_max_def)

lemma sz_sub_eq: "b \<le> a \<Longrightarrow> a \<le> size_max \<Longrightarrow> sz_sub a b = a - b"
proof -
  assume ba: "b \<le> a" and a: "a \<le> size_max"
  then have b: "b mod 2 ^ 64 = b" by (simp add: size_max_def)
  from ba have "a + 2 ^ 64 - b = (a - b) + 2 ^ 64" by simp
  then have "(a + 2 ^ 64 - b) mod 2 ^ 64 = (a - b) mod 2 ^ 64"
    by (simp only: mod_add_self2)
  also from a have "\<dots> = a - b" by (simp add: size_max_def)
  finally show ?thesis unfolding sz_sub_def b .
qed

lemma part_loop_bounds:
  "part_loop array c pivot high i p = Inr (a', p') \<Longrightarrow> p \<le> i \<Longrightarrow> i \<le> high \<Longrightarrow> high < size_max
     \<Longrightarrow> p \<le> p' \<and> p' \<le> high"
proof (induction array c pivot high i p rule: part_loop.induct)
  case (1 array c pivot high i pindex)
  show ?case
  proof (cases "i < high")
    case False
    with "1.prems" show ?thesis by (simp add: part_loop.simps[of array c pivot high i pindex])
  next
    case True
    have pi: "sz_add pindex 1 = Suc pindex"
      using "1.prems" True by (simp add: sz_add_def size_max_def)
    from True "1.prems"(1) obtain ai where ai: "rd array i = Inr ai"
      by (subst (asm) part_loop.simps) (auto split: sum.splits)
    show ?thesis
    proof (cases "c ai pivot \<le> 0")
      case False
      with True ai "1.prems"(1) have "part_loop array c pivot high (i + 1) pindex = Inr (a', p')"
        by (subst (asm) part_loop.simps) simp
      from "1.IH"(2)[OF True ai False this] "1.prems" True show ?thesis by simp
    next
      case le: True
      from True ai le "1.prems"(1) obtain ap a1 a2 where
        s: "rd array pindex = Inr ap" "wr array i ap = Inr a1" "wr a1 pindex ai = Inr a2"
           "part_loop a2 c pivot high (i + 1) (sz_add pindex 1) = Inr (a', p')"
        by (subst (asm) part_loop.simps) (auto split: sum.splits)
      from "1.IH"(1)[OF True ai le s] "1.prems" True pi show ?thesis by simp
    qed
  qed
qed


function impl_sort_quicksort ::
  "'v list \<Rightarrow> ('v \<Rightarrow> 'v \<Rightarrow> int) \<Rightarrow> nat \<Rightarrow> nat \<Rightarrow> error + 'v list" where
  "impl_sort_quicksort array c low high =
     (if low < high then
        (if high - low < 10 then impl_sort_insertion array c low high
         else
           (case rd array high of
              Inl e \<Rightarrow> Inl e
            | Inr pivot \<Rightarrow>
                (case part_loop array c pivot high low low of
                   Inl e \<Rightarrow> Inl e
                 | Inr (a1, pindex) \<Rightarrow>
                     (case swap_cells a1 pindex high of
                        Inl e \<Rightarrow> Inl e
                      | Inr a2 \<Rightarrow>
                          if sz_sub pindex low < sz_sub high pindex then
                            (case impl_sort_quicksort a2 c low (sz_sub pindex 1) of
                               Inl e \<Rightarrow> Inl e
                             | Inr a3 \<Rightarrow> impl_sort_quicksort a3 c (sz_add pindex 1) high)
                          else
                            (case impl_sort_quicksort a2 c (sz_add pindex 1) high of
                               Inl e \<Rightarrow> Inl e
                             | Inr a3 \<Rightarrow> impl_sort_quicksort a3 c low (sz_sub pindex 1))))))
      else Inr array)"
  by pat_completeness auto
termination
proof (relation "measure (\<lambda>(array, c, low, high). if high = size_max then 0 else Suc high - low)", goal_cases)
  case 1
  show ?case by simp
next
  case (2 array c low high pivot x a1 pindex a2)
  from \<open>rd array high = Inr pivot\<close> have h: "high < size_max"
    by (simp add: rd_def split: if_splits)
  have lh: "low < high" by fact
  have "part_loop array c pivot high low low = Inr (a1, pindex)"
    using \<open>(a1, pindex) = x\<close> \<open>part_loop array c pivot high low low = Inr x\<close> by simp
  from part_loop_bounds[OF this] lh h have b: "low \<le> pindex \<and> pindex \<le> high"
    by simp
  show ?case
  proof (cases "pindex = 0")
    case True
    then have "sz_sub pindex 1 = size_max" by (simp add: sz_sub_def size_max_def)
    with h lh show ?thesis by simp
  next
    case False
    with b h have e: "sz_sub pindex 1 = pindex - 1" by (simp add: sz_sub_eq)
    from b h False have "pindex - 1 \<noteq> size_max" by arith
    moreover from b lh False have "Suc (pindex - 1) - low < Suc high - low" by arith
    ultimately show ?thesis using h e by simp
  qed
next
  case (3 array c low high pivot x a1 pindex a2 a3)
  from \<open>rd array high = Inr pivot\<close> have h: "high < size_max"
    by (simp add: rd_def split: if_splits)
  have lh: "low < high" by fact
  have "part_loop array c pivot high low low = Inr (a1, pindex)"
    using \<open>(a1, pindex) = x\<close> \<open>part_loop array c pivot high low low = Inr x\<close> by simp
  from part_loop_bounds[OF this] lh h have b: "low \<le> pindex \<and> pindex \<le> high"
    by simp
  from b h have e: "sz_add pindex 1 = Suc pindex" by (simp add: sz_add_eq)
  from b lh have "Suc high - Suc pindex < Suc high - low" by arith
  then show ?case using h e by simp
next
  case (4 array c low high pivot x a1 pindex a2)
  from \<open>rd array high = Inr pivot\<close> have h: "high < size_max"
    by (simp add: rd_def split: if_splits)
  have lh: "low < high" by fact
  have "part_loop array c pivot high low low = Inr (a1, pindex)"
    using \<open>(a1, pindex) = x\<close> \<open>part_loop array c pivot high low low = Inr x\<close> by simp
  from part_loop_bounds[OF this] lh h have b: "low \<le> pindex \<and> pindex \<le> high"
    by simp
  from b h have e: "sz_add pindex 1 = Suc pindex" by (simp add: sz_add_eq)
  from b lh have "Suc high - Suc pindex < Suc high - low" by arith
  then show ?case using h e by simp
next
  case (5 array c low high pivot x a1 pindex a2 a3)
  from \<open>rd array high = Inr pivot\<close> have h: "high < size_max"
    by (simp add: rd_def split: if_splits)
  have lh: "low < high" by fact
  have "part_loop array c pivot high low low = Inr (a1, pindex)"
    using \<open>(a1, pindex) = x\<close> \<open>part_loop array c pivot high low low = Inr x\<close> by simp
  from part_loop_bounds[OF this] lh h have b: "low \<le> pindex \<and> pindex \<le> high"
    by simp
  show ?case
  proof (cases "pindex = 0")
    case True
    then have "sz_sub pindex 1 = size_max" by (simp add: sz_sub_def size_max_def)
    with h lh show ?thesis by simp
  next
    case False
    with b h have e: "sz_sub pindex 1 = pindex - 1" by (simp add: sz_sub_eq)
    from b h False have "pindex - 1 \<noteq> size_max" by arith
    moreover from b lh False have "Suc (pindex - 1) - low < Suc high - low" by arith
    ultimately show ?thesis using h e by simp
  qed
qed

declare impl_sort_quicksort.simps [simp del]


text \<open>\<^verbatim>\<open>PFX##_sort\<close>; reading \<^verbatim>\<open>_list_->f_val->cmp\<close> dereferences \<^verbatim>\<open>f_val\<close>.\<close>

definition PFX_sort :: "'v sortedlist \<Rightarrow> error + 'v sortedlist" where
  "PFX_sort l =
     (if \<not> is_sorted l \<and> count l > 1 then
        (case f_val l of
           None \<Rightarrow> Inl NullDeref
         | Some ft \<Rightarrow>
             (case impl_sort_quicksort (buffer l) (cmp ft) 0 (count l - 1) of
                Inl e \<Rightarrow> Inl e
              | Inr b \<Rightarrow> Inr (l\<lparr>buffer := b, is_sorted := True\<rparr>)))
      else Inr l)"

subsection \<open>Searching\<close>

text \<open>
  The loops of \<^verbatim>\<open>PFX##_impl_binary_search_first\<close> and \<^verbatim>\<open>PFX##_impl_binary_search_last\<close>
  return the final \<open>L\<close>.
\<close>

function bs_first_loop ::
  "'v list \<Rightarrow> ('v \<Rightarrow> 'v \<Rightarrow> int) \<Rightarrow> 'v \<Rightarrow> nat \<Rightarrow> nat \<Rightarrow> error + nat" where
  "bs_first_loop b c v L R =
     (if L < R then
        (let M = L + (R - L) div 2 in
           case rd b M of
             Inl e \<Rightarrow> Inl e
           | Inr x \<Rightarrow> if c x v < 0 then bs_first_loop b c v (M + 1) R
                      else bs_first_loop b c v L M)
      else Inr L)"
  by pat_completeness auto
termination
  by (relation "measure (\<lambda>(b, c, v, L, R). R - L)") auto

declare bs_first_loop.simps [simp del]

function bs_last_loop ::
  "'v list \<Rightarrow> ('v \<Rightarrow> 'v \<Rightarrow> int) \<Rightarrow> 'v \<Rightarrow> nat \<Rightarrow> nat \<Rightarrow> error + nat" where
  "bs_last_loop b c v L R =
     (if L < R then
        (let M = L + (R - L) div 2 in
           case rd b M of
             Inl e \<Rightarrow> Inl e
           | Inr x \<Rightarrow> if c x v > 0 then bs_last_loop b c v L M
                      else bs_last_loop b c v (M + 1) R)
      else Inr L)"
  by pat_completeness auto
termination
  by (relation "measure (\<lambda>(b, c, v, L, R). R - L)") auto

declare bs_last_loop.simps [simp del]

definition impl_binary_search_first :: "'v sortedlist \<Rightarrow> 'v \<Rightarrow> error + nat" where
  "impl_binary_search_first l v =
     (if PFX_empty l then Inr 1
      else case f_val l of
             None \<Rightarrow> Inl NullDeref
           | Some ft \<Rightarrow>
               (case bs_first_loop (buffer l) (cmp ft) v 0 (PFX_count l) of
                  Inl e \<Rightarrow> Inl e
                | Inr L \<Rightarrow>
                    (case rd (buffer l) L of
                       Inl e \<Rightarrow> Inl e
                     | Inr x \<Rightarrow> if cmp ft x v = 0 then Inr L else Inr (PFX_count l))))"

definition impl_binary_search_last :: "'v sortedlist \<Rightarrow> 'v \<Rightarrow> error + nat" where
  "impl_binary_search_last l v =
     (if PFX_empty l then Inr 1
      else case f_val l of
             None \<Rightarrow> Inl NullDeref
           | Some ft \<Rightarrow>
               (case bs_last_loop (buffer l) (cmp ft) v 0 (PFX_count l) of
                  Inl e \<Rightarrow> Inl e
                | Inr L \<Rightarrow>
                    (case rd (buffer l) (sz_sub L 1) of
                       Inl e \<Rightarrow> Inl e
                     | Inr x \<Rightarrow> if cmp ft x v = 0 then Inr (sz_sub L 1)
                                else Inr (PFX_count l))))"

text \<open>
  The functions that sort first return the list as the sort left it, next to their
  result.
\<close>

definition PFX_indexof :: "'v sortedlist \<Rightarrow> 'v \<Rightarrow> bool \<Rightarrow> error + (nat \<times> 'v sortedlist)" where
  "PFX_indexof l element from_start =
     (case PFX_sort l of
        Inl e \<Rightarrow> Inl e
      | Inr l' \<Rightarrow>
          (case (if from_start then impl_binary_search_first l' element
                 else impl_binary_search_last l' element) of
             Inl e \<Rightarrow> Inl e
           | Inr i \<Rightarrow> Inr (i, l')))"

definition PFX_contains :: "'v sortedlist \<Rightarrow> 'v \<Rightarrow> error + (bool \<times> 'v sortedlist)" where
  "PFX_contains l element =
     (if PFX_empty l then Inr (False, l)
      else case PFX_sort l of
             Inl e \<Rightarrow> Inl e
           | Inr l' \<Rightarrow>
               (case impl_binary_search_first l' element of
                  Inl e \<Rightarrow> Inl e
                | Inr i \<Rightarrow> Inr (i < count l', l')))"

subsection \<open>Element access\<close>

definition PFX_get :: "'v::zero sortedlist \<Rightarrow> nat \<Rightarrow> error + ('v \<times> 'v sortedlist)" where
  "PFX_get l index =
     (if index \<ge> count l then Inr (0, l)
      else case PFX_sort l of
             Inl e \<Rightarrow> Inl e
           | Inr l' \<Rightarrow>
               (case rd (buffer l') index of
                  Inl e \<Rightarrow> Inl e
                | Inr x \<Rightarrow> Inr (x, l')))"

text \<open>\<^verbatim>\<open>PFX##_min\<close> and \<^verbatim>\<open>PFX##_max\<close>: the boolean, the value stored through \<^verbatim>\<open>result\<close>
  (if any) and the list.\<close>

definition PFX_min :: "'v sortedlist \<Rightarrow> error + (bool \<times> 'v option \<times> 'v sortedlist)" where
  "PFX_min l =
     (if PFX_empty l then Inr (False, None, l)
      else case PFX_sort l of
             Inl e \<Rightarrow> Inl e
           | Inr l' \<Rightarrow>
               (case rd (buffer l') 0 of
                  Inl e \<Rightarrow> Inl e
                | Inr x \<Rightarrow> Inr (True, Some x, l')))"

definition PFX_max :: "'v sortedlist \<Rightarrow> error + (bool \<times> 'v option \<times> 'v sortedlist)" where
  "PFX_max l =
     (if PFX_empty l then Inr (False, None, l)
      else case PFX_sort l of
             Inl e \<Rightarrow> Inl e
           | Inr l' \<Rightarrow>
               (case rd (buffer l') (count l' - 1) of
                  Inl e \<Rightarrow> Inl e
                | Inr x \<Rightarrow> Inr (True, Some x, l')))"

subsection \<open>Copy and equality\<close>

text \<open>The loop \<^verbatim>\<open>result->buffer[i] = _list_->f_val->cpy(_list_->buffer[i])\<close>.\<close>

function cpy_loop ::
  "'v list \<Rightarrow> 'v list \<Rightarrow> ('v \<Rightarrow> 'v) \<Rightarrow> nat \<Rightarrow> nat \<Rightarrow> error + 'v list" where
  "cpy_loop dst src f i n =
     (if i < n then
        (case rd src i of
           Inl e \<Rightarrow> Inl e
         | Inr x \<Rightarrow>
             (case wr dst i (f x) of
                Inl e \<Rightarrow> Inl e
              | Inr dst' \<Rightarrow> cpy_loop dst' src f (i + 1) n))
      else Inr dst)"
  by pat_completeness auto
termination
  by (relation "measure (\<lambda>(dst, src, f, i, n). n - i)") auto

declare cpy_loop.simps [simp del]

text \<open>\<^verbatim>\<open>PFX##_copy_of\<close>; the inner \<open>None\<close> is the null pointer.\<close>

definition PFX_copy_of ::
  "'v::zero cmc_alloc_node \<Rightarrow> 'v sortedlist \<Rightarrow> error + 'v sortedlist option" where
  "PFX_copy_of dflt l =
     (case PFX_new_custom dflt (capacity l) (f_val l) (Some (alloc l)) (callbacks l) of
        None \<Rightarrow> Inr None
      | Some result \<Rightarrow>
          (case f_val l of
             None \<Rightarrow> Inl NullDeref
           | Some ft \<Rightarrow>
               (case (case cpy ft of
                        Some f \<Rightarrow> cpy_loop (buffer result) (buffer l) f 0 (count l)
                      | None \<Rightarrow> memcpy (buffer result) (buffer l) (count l)) of
                  Inl e \<Rightarrow> Inl e
                | Inr b \<Rightarrow> Inr (Some (result\<lparr>buffer := b, count := count l\<rparr>)))))"

text \<open>
  The loop of \<^verbatim>\<open>PFX##_equals\<close>: \<open>Some False\<close> is its \<^verbatim>\<open>return false\<close>, \<open>None\<close> is
  the loop running to its end.
\<close>

function equals_loop ::
  "'v sortedlist \<Rightarrow> 'v sortedlist \<Rightarrow> nat \<Rightarrow> error + bool option" where
  "equals_loop l1 l2 i =
     (if i < PFX_count l1 then
        (case f_val l1 of
           None \<Rightarrow> Inl NullDeref
         | Some ft \<Rightarrow>
             (case rd (buffer l1) i of
                Inl e \<Rightarrow> Inl e
              | Inr x \<Rightarrow>
                  (case rd (buffer l2) i of
                     Inl e \<Rightarrow> Inl e
                   | Inr y \<Rightarrow> if cmp ft x y \<noteq> 0 then Inr (Some False)
                              else equals_loop l1 l2 (i + 1))))
      else Inr None)"
  by pat_completeness auto
termination
  by (relation "measure (\<lambda>(l1, l2, i). PFX_count l1 - i)") auto

declare equals_loop.simps [simp del]

text \<open>\<^verbatim>\<open>PFX##_equals\<close> on two distinct lists: the result and both lists as the sorts
  left them. The statement after the loop is \<^verbatim>\<open>return false\<close>.\<close>

definition PFX_equals ::
  "'v sortedlist \<Rightarrow> 'v sortedlist \<Rightarrow> error + (bool \<times> 'v sortedlist \<times> 'v sortedlist)" where
  "PFX_equals l1 l2 =
     (if PFX_count l1 \<noteq> PFX_count l2 then Inr (False, l1, l2)
      else case PFX_sort l1 of
             Inl e \<Rightarrow> Inl e
           | Inr l1' \<Rightarrow>
               (case PFX_sort l2 of
                  Inl e \<Rightarrow> Inl e
                | Inr l2' \<Rightarrow>
                    (case equals_loop l1' l2' 0 of
                       Inl e \<Rightarrow> Inl e
                     | Inr (Some r) \<Rightarrow> Inr (r, l1', l2')
                     | Inr None \<Rightarrow> Inr (False, l1', l2'))))"

subsection \<open>The iterator\<close>

text \<open>
  The functions of \<^verbatim>\<open>sortedlist.h\<close>; \<^verbatim>\<open>_iter_next\<close>, \<^verbatim>\<open>_iter_prev\<close>, \<^verbatim>\<open>_iter_advance\<close>,
  \<^verbatim>\<open>_iter_rewind\<close> and \<^verbatim>\<open>_iter_go_to\<close> of \<^verbatim>\<open>ext/code.h\<close> have the same bodies. Each
  returns its result and the iterator; \<open>tgt\<close> is the list \<^verbatim>\<open>iter->target\<close> points to.
\<close>

definition PFX_iter_init :: "'v sortedlist \<Rightarrow> error + (iter \<times> 'v sortedlist)" where
  "PFX_iter_init target =
     (case PFX_sort target of
        Inl e \<Rightarrow> Inl e
      | Inr t \<Rightarrow> Inr (\<lparr>cursor = 0, start = True, end' = PFX_empty t\<rparr>, t))"

definition PFX_iter_start :: "'v sortedlist \<Rightarrow> iter \<Rightarrow> bool" where
  "PFX_iter_start tgt it = (PFX_empty tgt \<or> start it)"

definition PFX_iter_end :: "'v sortedlist \<Rightarrow> iter \<Rightarrow> bool" where
  "PFX_iter_end tgt it = (PFX_empty tgt \<or> end' it)"

definition PFX_iter_to_start :: "'v sortedlist \<Rightarrow> iter \<Rightarrow> iter" where
  "PFX_iter_to_start tgt it =
     (if \<not> PFX_empty tgt
      then it\<lparr>cursor := 0, start := True, end' := PFX_empty tgt\<rparr>
      else it)"

definition PFX_iter_to_end :: "'v sortedlist \<Rightarrow> iter \<Rightarrow> iter" where
  "PFX_iter_to_end tgt it =
     (if \<not> PFX_empty tgt
      then it\<lparr>start := PFX_empty tgt,
              cursor := (if PFX_empty tgt then 0 else sz_sub (count tgt) 1),
              end' := True\<rparr>
      else it)"

definition PFX_iter_next :: "'v sortedlist \<Rightarrow> iter \<Rightarrow> bool \<times> iter" where
  "PFX_iter_next tgt it =
     (if end' it then (False, it)
      else if sz_add (cursor it) 1 = PFX_count tgt then (False, it\<lparr>end' := True\<rparr>)
      else (True, it\<lparr>start := PFX_empty tgt, cursor := sz_add (cursor it) 1\<rparr>))"

definition PFX_iter_prev :: "'v sortedlist \<Rightarrow> iter \<Rightarrow> bool \<times> iter" where
  "PFX_iter_prev tgt it =
     (if start it then (False, it)
      else if cursor it = 0 then (False, it\<lparr>start := True\<rparr>)
      else (True, it\<lparr>end' := PFX_empty tgt, cursor := sz_sub (cursor it) 1\<rparr>))"

definition PFX_iter_advance :: "'v sortedlist \<Rightarrow> iter \<Rightarrow> nat \<Rightarrow> bool \<times> iter" where
  "PFX_iter_advance tgt it steps =
     (if end' it then (False, it)
      else if sz_add (cursor it) 1 = count tgt then (False, it\<lparr>end' := True\<rparr>)
      else if steps = 0 \<or> sz_add (cursor it) steps \<ge> PFX_count tgt then (False, it)
      else (True, it\<lparr>start := PFX_empty tgt, cursor := sz_add (cursor it) steps\<rparr>))"

definition PFX_iter_rewind :: "'v sortedlist \<Rightarrow> iter \<Rightarrow> nat \<Rightarrow> bool \<times> iter" where
  "PFX_iter_rewind tgt it steps =
     (if start it then (False, it)
      else if cursor it = 0 then (False, it\<lparr>start := True\<rparr>)
      else if steps = 0 \<or> cursor it < steps then (False, it)
      else (True, it\<lparr>end' := PFX_empty tgt, cursor := sz_sub (cursor it) steps\<rparr>))"

definition PFX_iter_go_to :: "'v sortedlist \<Rightarrow> iter \<Rightarrow> nat \<Rightarrow> bool \<times> iter" where
  "PFX_iter_go_to tgt it index =
     (if index \<ge> PFX_count tgt then (False, it)
      else if cursor it > index then PFX_iter_rewind tgt it (sz_sub (cursor it) index)
      else if cursor it < index then PFX_iter_advance tgt it (sz_sub index (cursor it))
      else (True, it))"

definition PFX_iter_value :: "'v::zero sortedlist \<Rightarrow> iter \<Rightarrow> error + 'v" where
  "PFX_iter_value tgt it = (if PFX_empty tgt then Inr 0 else rd (buffer tgt) (cursor it))"

definition PFX_iter_index :: "iter \<Rightarrow> nat" where
  "PFX_iter_index it = cursor it"

subsection \<open>An instance: lists of integers\<close>

text \<open>The comparator of the usual instantiation with an integer element type.\<close>

definition int_cmp :: "int \<Rightarrow> int \<Rightarrow> int" where
  "int_cmp a b = (if a < b then - 1 else if a > b then 1 else 0)"

definition int_ftab :: "int ftab_val" where
  "int_ftab = \<lparr>cmp = int_cmp, cpy = None\<rparr>"

text \<open>An allocator that never fails and hands out zeroed cells.\<close>

definition good_alloc :: "int cmc_alloc_node" where
  "good_alloc = \<lparr>malloc_ok = True, calloc_ok = (\<lambda>n. True), realloc_ok = (\<lambda>n. True),
                  junk = (\<lambda>i. 0)\<rparr>"

text \<open>A list of integers with the given cells, of which the first \<open>n\<close> are in use.\<close>

definition int_list :: "int list \<Rightarrow> nat \<Rightarrow> bool \<Rightarrow> int sortedlist" where
  "int_list cells n srt =
     \<lparr>buffer = cells, capacity = length cells, count = n, is_sorted = srt,
      flag = cmc_flags_OK, f_val = Some int_ftab, alloc = good_alloc, callbacks = None\<rparr>"

section \<open>Properties\<close>

subsection \<open>Construction\<close>

lemma PFX_new_None:
  "PFX_new dflt cap fv = None \<longleftrightarrow>
     cap < 1 \<or> fv = None \<or> \<not> malloc_ok dflt \<or> \<not> calloc_ok dflt cap"
  by (simp add: PFX_new_def split: option.splits)

lemma PFX_new_Some:
  "PFX_new dflt cap fv = Some l \<Longrightarrow>
     count l = 0 \<and> \<not> is_sorted l \<and> capacity l = cap \<and> buffer l = replicate cap 0 \<and>
     flag l = cmc_flags_OK \<and> f_val l = fv \<and> alloc l = dflt"
  by (auto simp: PFX_new_def split: option.splits if_splits)

lemma PFX_new_custom_None:
  "PFX_new_custom dflt cap fv al cb = None \<longleftrightarrow>
     cap < 1 \<or> \<not> malloc_ok (case al of None \<Rightarrow> dflt | Some a \<Rightarrow> a)
       \<or> \<not> calloc_ok (case al of None \<Rightarrow> dflt | Some a \<Rightarrow> a) cap"
  by (simp add: PFX_new_custom_def Let_def)

lemma PFX_new_custom_Some:
  "PFX_new_custom dflt cap fv al cb = Some l \<Longrightarrow>
     count l = 0 \<and> \<not> is_sorted l \<and> capacity l = cap \<and> buffer l = replicate cap 0 \<and>
     flag l = cmc_flags_OK \<and> f_val l = fv"
  by (auto simp: PFX_new_custom_def Let_def split: if_splits)

text \<open>
  Claim C5: both constructors fail when the capacity is below 1, when the behaviour
  table is missing or when storage cannot be allocated, and a constructed list has
  count 0 and the sorted flag false. \<^verbatim>\<open>PFX##_new\<close> does all of that
  (\<open>PFX_new_None\<close>, \<open>PFX_new_Some\<close>), but \<^verbatim>\<open>PFX##_new_custom\<close> has no test of
  \<^verbatim>\<open>f_val\<close>: with a null table and a working allocator it returns a list whose
  \<^verbatim>\<open>f_val\<close> is null.
\<close>

theorem new_custom_accepts_null_f_val:
  "PFX_new_custom good_alloc 1 None None None =
     Some \<lparr>buffer = [0], capacity = 1, count = 0, is_sorted = False, flag = cmc_flags_OK,
           f_val = None, alloc = good_alloc, callbacks = None\<rparr>"
  by (simp add: PFX_new_custom_def good_alloc_def)

subsection \<open>Insertion and growth\<close>

text \<open>
  A successful doubling: \<^verbatim>\<open>capacity * 2\<close> did not wrap around, since a wrapped
  value is below \<^verbatim>\<open>count\<close> and \<^verbatim>\<open>PFX##_resize\<close> refuses it.
\<close>

lemma PFX_resize_double:
  assumes "length (buffer l) = capacity l" "count l = capacity l" "capacity l \<le> size_max"
    and "1 \<le> capacity l"
    and "PFX_resize l (sz_mul (capacity l) 2) = (True, l1)"
  shows "l1 = l\<lparr>buffer := realloc_buf (alloc l) (buffer l) (2 * capacity l),
                  capacity := 2 * capacity l\<rparr> \<and> 2 * capacity l \<le> size_max"
proof -
  let ?c = "capacity l"
  have ne: "sz_mul ?c 2 \<noteq> ?c"
  proof
    assume e: "sz_mul ?c 2 = ?c"
    show False
    proof (cases "?c * 2 < 2 ^ 64")
      case True
      with e assms(4) show False by (simp add: sz_mul_def)
    next
      case False
      with assms(3) have "(?c * 2) mod 2 ^ 64 = ?c * 2 - 2 ^ 64"
        by (simp add: size_max_def mod_if)
      with e False assms(3) show False by (simp add: sz_mul_def size_max_def)
    qed
  qed
  from assms(5) ne assms(2) have ge: "?c \<le> sz_mul ?c 2"
    by (auto simp: PFX_resize_def split: if_splits)
  have small: "?c * 2 < 2 ^ 64"
  proof (rule ccontr)
    assume "\<not> ?c * 2 < 2 ^ 64"
    with assms(3) have "(?c * 2) mod 2 ^ 64 = ?c * 2 - 2 ^ 64"
      by (simp add: size_max_def mod_if)
    with ge assms(3,4) show False by (simp add: sz_mul_def size_max_def)
  qed
  then have m: "sz_mul ?c 2 = 2 * ?c" by (simp add: sz_mul_def)
  from assms(5) ne assms(4) show ?thesis
    using small by (auto simp: PFX_resize_def m size_max_def split: if_splits)
qed

lemma length_realloc_buf: "length (realloc_buf a b n) = n"
  by (simp add: realloc_buf_def)

lemma take_realloc_buf: "k \<le> length b \<Longrightarrow> k \<le> n \<Longrightarrow> take k (realloc_buf a b n) = take k b"
  by (simp add: realloc_buf_def min_def)

text \<open>One successful insert into a list whose buffer has \<^verbatim>\<open>capacity\<close> cells.\<close>

lemma PFX_insert_step:
  assumes len: "length (buffer l) = capacity l" and cnt: "count l \<le> capacity l"
    and cap: "capacity l \<le> size_max" and pos: "1 \<le> capacity l"
    and ins: "PFX_insert l x = Inr (True, l')"
  shows "count l' = count l + 1 \<and> take (count l') (buffer l') = take (count l) (buffer l) @ [x]
       \<and> \<not> is_sorted l' \<and> length (buffer l') = capacity l' \<and> count l' \<le> capacity l'
       \<and> capacity l' \<le> size_max
       \<and> capacity l' = (if count l = capacity l then 2 * capacity l else capacity l)"
proof (cases "count l = capacity l")
  case False
  with cnt have lt: "count l < capacity l" by simp
  with cap have sa: "sz_add (count l) 1 = count l + 1" by (simp add: sz_add_eq)
  from lt cap have w: "wr (buffer l) (count l) x = Inr ((buffer l)[count l := x])"
    using len by (simp add: wr_def)
  from ins lt w sa have l': "l' = l\<lparr>buffer := (buffer l)[count l := x], count := count l + 1,
                                    is_sorted := False\<rparr>"
    by (simp add: PFX_insert_def PFX_full_def)
  from lt len have "take (Suc (count l)) ((buffer l)[count l := x]) = take (count l) (buffer l) @ [x]"
    by (simp add: take_Suc_conv_app_nth)
  with l' lt len cap False show ?thesis by simp
next
  case True
  from ins True obtain l1 where r: "PFX_resize l (sz_mul (capacity l) 2) = (True, l1)"
    by (cases "PFX_resize l (sz_mul (capacity l) 2)")
       (auto simp: PFX_insert_def PFX_full_def split: if_splits)
  from PFX_resize_double[OF len True cap pos r]
  have l1: "l1 = l\<lparr>buffer := realloc_buf (alloc l) (buffer l) (2 * capacity l),
                    capacity := 2 * capacity l\<rparr>" and c2: "2 * capacity l \<le> size_max"
    by simp_all
  from l1 have c1: "count l1 = count l" "capacity l1 = 2 * capacity l"
    "length (buffer l1) = 2 * capacity l"
    by (simp_all add: length_realloc_buf)
  from True pos c2 have lt: "count l < 2 * capacity l" "count l < size_max" by simp_all
  then have sa: "sz_add (count l) 1 = count l + 1" by (simp add: sz_add_eq)
  from lt c1 have w: "wr (buffer l1) (count l1) x = Inr ((buffer l1)[count l := x])"
    by (simp add: wr_def)
  from ins True r w sa c1 have l': "l' = l1\<lparr>buffer := (buffer l1)[count l := x],
                                  count := count l + 1, is_sorted := False\<rparr>"
    by (simp add: PFX_insert_def PFX_full_def)
  have "take (count l) (buffer l1) = take (count l) (buffer l)"
    using l1 True len by (simp add: take_realloc_buf)
  with lt c1 have "take (Suc (count l)) ((buffer l1)[count l := x]) = take (count l) (buffer l) @ [x]"
    by (simp add: take_Suc_conv_app_nth)
  with l' c1 lt c2 True show ?thesis by simp
qed

text \<open>
  The invariant of a run of inserts: the capacity is \<open>C0 * 2 ^ k\<close> and no smaller
  value of that form holds the elements.
\<close>

lemma inserts_invariant:
  assumes "inserts l xs = Inr (True, l')"
    and "length (buffer l) = capacity l" and "count l \<le> capacity l"
    and "capacity l \<le> size_max" and "1 \<le> C0"
    and "capacity l = C0 * 2 ^ k"
    and "\<forall>j. count l \<le> C0 * 2 ^ j \<longrightarrow> capacity l \<le> C0 * 2 ^ j"
  shows "count l' = count l + length xs
       \<and> take (count l') (buffer l') = take (count l) (buffer l) @ xs
       \<and> (xs \<noteq> [] \<longrightarrow> \<not> is_sorted l')
       \<and> (\<exists>k'. capacity l' = C0 * 2 ^ k') \<and> count l' \<le> capacity l'
       \<and> (\<forall>j. count l' \<le> C0 * 2 ^ j \<longrightarrow> capacity l' \<le> C0 * 2 ^ j)"
  using assms
proof (induction xs arbitrary: l k)
  case Nil
  then show ?case by auto
next
  case (Cons x xs)
  from Cons.prems(1) obtain l1 where i: "PFX_insert l x = Inr (True, l1)"
    and r: "inserts l1 xs = Inr (True, l')"
    by (auto split: sum.splits if_splits)
  from Cons.prems(5,6) have pos: "1 \<le> capacity l" by simp
  note st = PFX_insert_step[OF Cons.prems(2,3,4) pos i]
  let ?k1 = "if count l = capacity l then Suc k else k"
  from st Cons.prems(6) have ck: "capacity l1 = C0 * 2 ^ ?k1" by simp
  have mn: "\<forall>j. count l1 \<le> C0 * 2 ^ j \<longrightarrow> capacity l1 \<le> C0 * 2 ^ j"
  proof (intro allI impI)
    fix j assume j: "count l1 \<le> C0 * 2 ^ j"
    show "capacity l1 \<le> C0 * 2 ^ j"
    proof (cases "count l = capacity l")
      case False
      with st j Cons.prems(7) show ?thesis by simp
    next
      case True
      from st True have "count l1 = capacity l + 1" by simp
      with j Cons.prems(6) have "C0 * 2 ^ k < C0 * 2 ^ j" by linarith
      then have "(2::nat) ^ k < 2 ^ j" by simp
      then have "k < j" by simp
      then have "Suc k \<le> j" by simp
      then have "(2::nat) ^ Suc k \<le> 2 ^ j" by (rule power_increasing) simp
      then have "C0 * 2 ^ Suc k \<le> C0 * 2 ^ j" by (rule mult_le_mono2)
      with ck True show ?thesis by simp
    qed
  qed
  from st have a: "length (buffer l1) = capacity l1" "count l1 \<le> capacity l1"
    "capacity l1 \<le> size_max" by simp_all
  from st have c1: "count l1 = count l + 1"
    and t1: "take (count l1) (buffer l1) = take (count l) (buffer l) @ [x]"
    and s1: "\<not> is_sorted l1"
    by blast+
  from Cons.IH[OF r a Cons.prems(5) ck mn]
  have i1: "count l' = count l1 + length xs"
    and i2: "take (count l') (buffer l') = take (count l1) (buffer l1) @ xs"
    and i3: "xs \<noteq> [] \<longrightarrow> \<not> is_sorted l'"
    and i4: "(\<exists>k'. capacity l' = C0 * 2 ^ k') \<and> count l' \<le> capacity l'
       \<and> (\<forall>j. count l' \<le> C0 * 2 ^ j \<longrightarrow> capacity l' \<le> C0 * 2 ^ j)"
    by blast+
  from i1 c1 have "count l' = count l + length (x # xs)" by simp
  moreover from i2 t1 have "take (count l') (buffer l') = take (count l) (buffer l) @ x # xs"
    by simp
  moreover have "\<not> is_sorted l'"
  proof (cases xs)
    case Nil
    with r s1 show ?thesis by simp
  next
    case (Cons y ys)
    with i3 show ?thesis by simp
  qed
  ultimately show ?case using i4 by simp
qed

text \<open>
  With an allocator that does not fail and sizes that fit \<^verbatim>\<open>size_t\<close>, every insert of
  a run succeeds.
\<close>

lemma PFX_insert_succeeds:
  assumes len: "length (buffer l) = capacity l" and cnt: "count l \<le> capacity l"
    and pos: "1 \<le> capacity l" and fit: "2 * capacity l \<le> size_max"
    and ok: "realloc_ok (alloc l) (2 * capacity l)"
  shows "\<exists>l'. PFX_insert l x = Inr (True, l') \<and> alloc l' = alloc l"
proof (cases "count l = capacity l")
  case False
  with cnt len fit have "wr (buffer l) (count l) x = Inr ((buffer l)[count l := x])"
    by (simp add: wr_def)
  with False cnt show ?thesis by (simp add: PFX_insert_def PFX_full_def)
next
  case True
  from fit have m: "sz_mul (capacity l) 2 = 2 * capacity l"
    by (simp add: sz_mul_def size_max_def)
  from pos True ok have r: "PFX_resize l (2 * capacity l)
      = (True, l\<lparr>buffer := realloc_buf (alloc l) (buffer l) (2 * capacity l),
                   capacity := 2 * capacity l\<rparr>)"
    by (simp add: PFX_resize_def)
  from pos True fit have "wr (realloc_buf (alloc l) (buffer l) (2 * capacity l)) (count l) x
      = Inr ((realloc_buf (alloc l) (buffer l) (2 * capacity l))[count l := x])"
    by (simp add: wr_def length_realloc_buf)
  with True m r show ?thesis by (simp add: PFX_insert_def PFX_full_def)
qed

lemma inserts_succeed:
  assumes "length (buffer l) = capacity l" and "count l \<le> capacity l"
    and "1 \<le> capacity l"
    and "2 * max (capacity l) (2 * (count l + length xs)) \<le> size_max"
    and "\<forall>n. realloc_ok (alloc l) n"
  shows "\<exists>l'. inserts l xs = Inr (True, l')"
  using assms
proof (induction xs arbitrary: l)
  case Nil
  show ?case by simp
next
  case (Cons x xs)
  from Cons.prems(4) have fit: "2 * capacity l \<le> size_max"
    by (simp add: max_def split: if_splits)
  from Cons.prems(5) have "realloc_ok (alloc l) (2 * capacity l)" by simp
  from PFX_insert_succeeds[OF Cons.prems(1-3) fit this]
  obtain l1 where i: "PFX_insert l x = Inr (True, l1)" and al: "alloc l1 = alloc l" by blast
  from fit have "capacity l \<le> size_max" by simp
  from PFX_insert_step[OF Cons.prems(1,2) this Cons.prems(3) i]
  have st: "count l1 = count l + 1" "length (buffer l1) = capacity l1" "count l1 \<le> capacity l1"
    "capacity l1 = (if count l = capacity l then 2 * capacity l else capacity l)"
    by blast+
  from st Cons.prems(3) have p1: "1 \<le> capacity l1" by (simp split: if_splits)
  from st Cons.prems(2,4) have "2 * max (capacity l1) (2 * (count l1 + length xs)) \<le> size_max"
    by (simp add: max_def split: if_splits)
  from Cons.IH[OF st(2,3) p1 this] al Cons.prems(5)
  obtain l' where "inserts l1 xs = Inr (True, l')" by auto
  with i show ?case by simp
qed

text \<open>
  Claim C6: \<open>N\<close> successful inserts into a freshly constructed list of initial
  capacity \<open>C0\<close> (each appends its element at position \<^verbatim>\<open>count\<close> and clears the
  sorted flag) leave \<^verbatim>\<open>count\<close> equal to \<open>N\<close> and \<^verbatim>\<open>capacity\<close> equal to the smallest
  \<open>C0 * 2 ^ k\<close> that is at least \<open>N\<close>. The list is built by either constructor; the
  first \<^verbatim>\<open>count\<close> cells are the inserted elements in their order.
\<close>

theorem inserts_count_capacity:
  assumes "PFX_new dflt C0 fv = Some l0 \<or> PFX_new_custom dflt C0 fv al cb = Some l0"
    and "C0 \<le> size_max"
    and "inserts l0 xs = Inr (True, l)"
  shows "count l = length xs
       \<and> take (count l) (buffer l) = xs
       \<and> (xs \<noteq> [] \<longrightarrow> \<not> is_sorted l)
       \<and> (\<exists>k. capacity l = C0 * 2 ^ k)
       \<and> length xs \<le> capacity l
       \<and> (\<forall>j. length xs \<le> C0 * 2 ^ j \<longrightarrow> capacity l \<le> C0 * 2 ^ j)"
proof -
  from assms(1) have f: "count l0 = 0" "capacity l0 = C0" "buffer l0 = replicate C0 0"
    using PFX_new_Some PFX_new_custom_Some by blast+
  from assms(1) have pos: "1 \<le> C0"
    by (auto simp: PFX_new_def PFX_new_custom_def Let_def split: if_splits option.splits)
  have k0: "capacity l0 = C0 * 2 ^ 0" using f by simp
  have mn: "\<forall>j. count l0 \<le> C0 * 2 ^ j \<longrightarrow> capacity l0 \<le> C0 * 2 ^ j"
    using f by simp
  have "length (buffer l0) = capacity l0" "count l0 \<le> capacity l0" "capacity l0 \<le> size_max"
    using f assms(2) by simp_all
  from inserts_invariant[OF assms(3) this pos k0 mn] f
  show ?thesis by auto
qed

theorem inserts_count_capacity_witness:
  "PFX_new good_alloc 1 (Some int_ftab) = Some (int_list [0] 0 False) \<and>
   inserts (int_list [0] 0 False) [5, 3, 8] = Inr (True, int_list [5, 3, 8, 0] 3 False) \<and>
   count (int_list [5, 3, 8, 0] 3 False) = 3 \<and>
   take 3 (buffer (int_list [5, 3, 8, 0] 3 False)) = [5, 3, 8] \<and>
   \<not> is_sorted (int_list [5, 3, 8, 0] 3 False) \<and>
   capacity (int_list [5, 3, 8, 0] 3 False) = 1 * 2 ^ 2"
proof -
  have n: "PFX_new good_alloc 1 (Some int_ftab) = Some (int_list [0] 0 False)"
    by (simp add: PFX_new_def good_alloc_def int_list_def)
  have i: "inserts (int_list [0] 0 False) [5, 3, 8] = Inr (True, int_list [5, 3, 8, 0] 3 False)"
    by (simp add: PFX_insert_def PFX_full_def PFX_resize_def realloc_buf_def int_list_def
        good_alloc_def wr_def sz_mul_def sz_add_def size_max_def upt_rec)
  have s: "(1::nat) \<le> size_max" by (simp add: size_max_def)
  from inserts_count_capacity[OF disjI1[OF n] s i] n i
  show ?thesis by (simp add: int_list_def)
qed

subsection \<open>Removal\<close>

lemma PFX_remove_out_of_range: "count l \<le> index \<Longrightarrow> PFX_remove l index = Inr (False, l)"
  by (simp add: PFX_remove_def)

text \<open>
  On a list that is not full the removal deletes position \<^verbatim>\<open>index\<close>, clears the
  vacated cell and leaves the cells from \<^verbatim>\<open>count\<close> on as they were.
\<close>

lemma PFX_remove_below_capacity:
  assumes i: "index < count l" and c: "count l < length (buffer l)" and s: "count l \<le> size_max"
  shows "\<exists>b'. PFX_remove l index = Inr (True, l\<lparr>buffer := b', count := count l - 1\<rparr>)
     \<and> length b' = length (buffer l)
     \<and> take (count l - 1) b' = take index (buffer l) @ drop (Suc index) (take (count l) (buffer l))
     \<and> b' ! (count l - 1) = 0
     \<and> drop (count l) b' = drop (count l) (buffer l)"
proof -
  define a where "a = buffer l"
  define n where "n = count l"
  define m where "m = take index a @ take (n - index) (drop (index + 1) a) @ drop n a"
  from i c have inl: "index < n" "n < length a" by (simp_all add: a_def n_def)
  then have mm: "memmove a index (index + 1) (n - index) = Inr m"
    by (simp add: memmove_def m_def)
  from inl have lm: "length m = length a" by (simp add: m_def)
  from inl s have "n - 1 < length a" "n - 1 < size_max" by (simp_all add: n_def)
  with lm have w: "wr m (n - 1) 0 = Inr (m[n - 1 := 0])"
    by (simp add: wr_def)
  from inl mm w have r: "PFX_remove l index = Inr (True, l\<lparr>buffer := m[n - 1 := 0], count := n - 1\<rparr>)"
    by (simp add: PFX_remove_def a_def[symmetric] n_def[symmetric])
  have t: "take (n - 1) (m[n - 1 := 0]) = take index a @ drop (Suc index) (take n a)"
  proof -
    have "take (n - 1) (m[n - 1 := 0]) = take (n - 1) m" by simp
    also from inl have "\<dots> = take index a @ take (n - 1 - index) (drop (Suc index) a)"
      by (simp add: m_def)
    also from inl have "take (n - 1 - index) (drop (Suc index) a) = drop (Suc index) (take n a)"
      by (simp add: drop_take)
    finally show ?thesis .
  qed
  from inl lm have z: "(m[n - 1 := 0]) ! (n - 1) = 0" by simp
  from inl have d: "drop n (m[n - 1 := 0]) = drop n a" by (simp add: m_def)
  from r lm t z d have "PFX_remove l index = Inr (True, l\<lparr>buffer := m[n - 1 := 0], count := count l - 1\<rparr>)
     \<and> length (m[n - 1 := 0]) = length (buffer l)
     \<and> take (count l - 1) (m[n - 1 := 0])
         = take index (buffer l) @ drop (Suc index) (take (count l) (buffer l))
     \<and> (m[n - 1 := 0]) ! (count l - 1) = 0
     \<and> drop (count l) (m[n - 1 := 0]) = drop (count l) (buffer l)"
    by (simp add: a_def n_def)
  then show ?thesis by (rule exI)
qed

lemma PFX_remove_keeps_sorted_flag:
  "PFX_remove l index = Inr (ok, l') \<Longrightarrow> is_sorted l' = is_sorted l"
  by (auto simp: PFX_remove_def split: if_splits sum.splits)

text \<open>
  Claim C7: remove-at with an index below count returns true and deletes that
  position. The \<^verbatim>\<open>memmove\<close> of \<^verbatim>\<open>PFX##_remove\<close> copies \<^verbatim>\<open>count - index\<close> elements from
  \<^verbatim>\<open>buffer + index + 1\<close>, one more than there are: on a full list (here one element,
  capacity 1) it reads \<^verbatim>\<open>buffer[count]\<close>, outside the allocation.
\<close>

theorem remove_full_list_out_of_bounds:
  "PFX_remove (int_list [7] 1 False) 0 = Inl OutOfBounds"
  by (simp add: PFX_remove_def int_list_def memmove_def)

subsection \<open>Sorting\<close>

lemma PFX_sort_noop: "is_sorted l \<or> count l \<le> 1 \<Longrightarrow> PFX_sort l = Inr l"
  by (auto simp: PFX_sort_def)

lemma PFX_sort_flag: "PFX_sort l = Inr l' \<Longrightarrow> flag l' = flag l \<and> count l' = count l"
  by (auto simp: PFX_sort_def split: if_splits option.splits sum.splits)

lemma sort_3: "PFX_sort (int_list [3, 1, 2] 3 False) = Inr (int_list [1, 2, 3] 3 True)"
  by (simp add: PFX_sort_def int_list_def int_ftab_def int_cmp_def
      impl_sort_quicksort.simps impl_sort_insertion_def ins_outer.simps ins_inner.simps
      rd_def wr_def size_max_def sz_sub_def sz_add_def)












text \<open>
  Claim C2: Sort leaves the buffer a sorted permutation of its content and sets the
  sorted flag. On the eleven elements \<open>10, 9, \<dots>, 0\<close> the pivot \<open>0\<close> is the strict
  minimum, the partition loop leaves \<^verbatim>\<open>pindex = low = 0\<close>, and the recursive call
  \<^verbatim>\<open>PFX##_impl_sort_quicksort(array, cmp, low, pindex - 1)\<close> gets \<^verbatim>\<open>high = SIZE_MAX\<close>: it
  reads its pivot \<^verbatim>\<open>array[SIZE_MAX]\<close>.
\<close>

theorem sort_descending_out_of_bounds:
  "PFX_sort (int_list [10, 9, 8, 7, 6, 5, 4, 3, 2, 1, 0] 11 False) = Inl OutOfBounds"
  by (simp add: PFX_sort_def int_list_def int_ftab_def int_cmp_def
      impl_sort_quicksort.simps part_loop.simps swap_cells_def rd_def wr_def
      size_max_def sz_sub_def sz_add_def)

subsection \<open>Searching\<close>









text \<open>
  Claim C4: every access to the element buffer is within bounds. On the full list
  \<open>[1, 2, 3]\<close> (count 3, capacity 3) index-of for 5 from the start ends the loop
  with \<open>L = 3\<close> and then reads \<^verbatim>\<open>buffer[3]\<close>, one cell past the allocation.
\<close>

theorem indexof_full_list_out_of_bounds:
  "PFX_indexof (int_list [1, 2, 3] 3 False) 5 True = Inl OutOfBounds"
  by (simp add: PFX_indexof_def PFX_sort_def int_list_def impl_binary_search_first_def
      PFX_empty_def PFX_count_def int_ftab_def int_cmp_def bs_first_loop.simps
      impl_sort_quicksort.simps impl_sort_insertion_def ins_outer.simps ins_inner.simps
      rd_def wr_def size_max_def sz_sub_def sz_add_def Let_def)

text \<open>
  The search from the end for an element below every stored one ends with \<open>L = 0\<close>
  and reads \<^verbatim>\<open>buffer[L - 1]\<close>, that is \<^verbatim>\<open>buffer[SIZE_MAX]\<close>, whatever the capacity.
\<close>

lemma indexof_last_out_of_bounds:
  "PFX_indexof (int_list [1, 2, 3, 0] 3 False) 0 False = Inl OutOfBounds"
  by (simp add: PFX_indexof_def PFX_sort_def int_list_def impl_binary_search_last_def
      PFX_empty_def PFX_count_def int_ftab_def int_cmp_def bs_last_loop.simps
      impl_sort_quicksort.simps impl_sort_insertion_def ins_outer.simps ins_inner.simps
      rd_def wr_def size_max_def sz_sub_def sz_add_def Let_def)

subsection \<open>Element access and the flag\<close>

text \<open>
  \<^verbatim>\<open>PFX##_get\<close> with an index that is not below \<^verbatim>\<open>count\<close> returns the zero value and
  leaves the list as it was, and no call that returns changes the \<^verbatim>\<open>flag\<close> member.
\<close>

lemma PFX_get_keeps_flag:
  "(count l \<le> index \<longrightarrow> PFX_get l index = Inr (0, l)) \<and>
   (\<forall>v l'. PFX_get l index = Inr (v, l') \<longrightarrow> flag l' = flag l)"
  by (auto simp: PFX_get_def split: if_splits sum.splits dest: PFX_sort_flag)

text \<open>
  Claim C9: a failure of an operation without a boolean result is recorded in the
  \<^verbatim>\<open>flag\<close> member, so that after \<^verbatim>\<open>PFX##_get\<close> with an index that is not below \<^verbatim>\<open>count\<close>
  the flag is \<^verbatim>\<open>OUT_OF_RANGE\<close>. The header documents the flags as telling what went
  wrong in the last operation, but \<^verbatim>\<open>PFX##_get\<close> never writes the member: after
  \<^verbatim>\<open>get(0)\<close> on a freshly constructed, empty list the result is the zero value and the
  flag is still \<^verbatim>\<open>OK\<close>.
\<close>

theorem get_out_of_range_leaves_flag_OK:
  "PFX_new good_alloc 1 (Some int_ftab) = Some (int_list [0] 0 False) \<and>
   PFX_get (int_list [0] 0 False) 0 = Inr (0, int_list [0] 0 False) \<and>
   flag (int_list [0] 0 False) = cmc_flags_OK \<and>
   cmc_flags_OK \<noteq> cmc_flags_OUT_OF_RANGE"
  by (simp add: PFX_new_def PFX_get_def int_list_def good_alloc_def cmc_flags_OK_def
      cmc_flags_OUT_OF_RANGE_def)

subsection \<open>Equality\<close>

lemma equals_loop_not_true: "equals_loop l1 l2 i \<noteq> Inr (Some True)"
proof (induction l1 l2 i rule: equals_loop.induct)
  case (1 l1 l2 i)
  show ?case
    by (subst equals_loop.simps) (use 1 in \<open>auto split: option.splits sum.splits\<close>)
qed

lemma PFX_equals_never_true: "PFX_equals l1 l2 \<noteq> Inr (True, a, b)"
  by (auto simp: PFX_equals_def equals_loop_not_true split: sum.splits option.splits)

text \<open>
  Claim C1: \<^verbatim>\<open>PFX##_equals\<close> returns true for two lists with equal counts and pairwise
  equal elements, in particular for a list and its copy. The copy of the list \<open>[1]\<close>
  is \<open>[1]\<close>, and \<^verbatim>\<open>PFX##_equals\<close> of the two returns false: the statement after its
  loop is \<^verbatim>\<open>return false\<close>.
\<close>

theorem equals_copy_of_returns_false:
  "PFX_copy_of good_alloc (int_list [1] 1 False) = Inr (Some (int_list [1] 1 False)) \<and>
   PFX_equals (int_list [1] 1 False) (int_list [1] 1 False)
     = Inr (False, int_list [1] 1 False, int_list [1] 1 False)"
  by (simp add: PFX_copy_of_def PFX_new_custom_def PFX_equals_def PFX_sort_def PFX_count_def
      int_list_def good_alloc_def int_ftab_def int_cmp_def memcpy_def equals_loop.simps
      rd_def size_max_def)

subsection \<open>The iterator\<close>

text \<open>
  Claim C10: with the cursor on the last index of a non-empty list and the end flag
  unset, \<^verbatim>\<open>PFX##_iter_next\<close> and \<^verbatim>\<open>PFX##_iter_advance\<close> return false, leave the
  cursor and set the end flag, so that \<^verbatim>\<open>PFX##_iter_end\<close> holds afterwards; with the
  cursor on index 0 and the start flag unset, \<^verbatim>\<open>PFX##_iter_prev\<close> (and
  \<^verbatim>\<open>PFX##_iter_rewind\<close>) return false and set the start flag.
\<close>

theorem iter_boundary_sets_flag:
  assumes "count tgt \<le> size_max"
  shows "(0 < count tgt \<and> cursor it + 1 = count tgt \<and> \<not> end' it \<longrightarrow>
            PFX_iter_next tgt it = (False, it\<lparr>end' := True\<rparr>) \<and>
            PFX_iter_advance tgt it n = (False, it\<lparr>end' := True\<rparr>) \<and>
            cursor (it\<lparr>end' := True\<rparr>) = cursor it \<and>
            PFX_iter_end tgt (it\<lparr>end' := True\<rparr>))
       \<and> (cursor it = 0 \<and> \<not> start it \<longrightarrow>
            PFX_iter_prev tgt it = (False, it\<lparr>start := True\<rparr>) \<and>
            PFX_iter_rewind tgt it n = (False, it\<lparr>start := True\<rparr>) \<and>
            cursor (it\<lparr>start := True\<rparr>) = cursor it \<and>
            PFX_iter_start tgt (it\<lparr>start := True\<rparr>))"
proof (intro conjI impI)
  assume a: "0 < count tgt \<and> cursor it + 1 = count tgt \<and> \<not> end' it"
  with assms have s: "sz_add (cursor it) 1 = count tgt"
    by (simp add: sz_add_def size_max_def)
  from a s show "PFX_iter_next tgt it = (False, it\<lparr>end' := True\<rparr>)"
    by (simp add: PFX_iter_next_def PFX_count_def)
  from a s show "PFX_iter_advance tgt it n = (False, it\<lparr>end' := True\<rparr>)"
    by (simp add: PFX_iter_advance_def)
  show "cursor (it\<lparr>end' := True\<rparr>) = cursor it" by simp
  show "PFX_iter_end tgt (it\<lparr>end' := True\<rparr>)" by (simp add: PFX_iter_end_def)
next
  assume a: "cursor it = 0 \<and> \<not> start it"
  then show "PFX_iter_prev tgt it = (False, it\<lparr>start := True\<rparr>)"
    by (simp add: PFX_iter_prev_def)
  from a show "PFX_iter_rewind tgt it n = (False, it\<lparr>start := True\<rparr>)"
    by (simp add: PFX_iter_rewind_def)
  show "cursor (it\<lparr>start := True\<rparr>) = cursor it" by simp
  show "PFX_iter_start tgt (it\<lparr>start := True\<rparr>)" by (simp add: PFX_iter_start_def)
qed

theorem iter_boundary_sets_flag_witness:
  "PFX_iter_next (int_list [1, 2, 3] 3 True) \<lparr>cursor = 2, start = False, end' = False\<rparr>
     = (False, \<lparr>cursor = 2, start = False, end' = True\<rparr>) \<and>
   PFX_iter_advance (int_list [1, 2, 3] 3 True) \<lparr>cursor = 2, start = False, end' = False\<rparr> 4
     = (False, \<lparr>cursor = 2, start = False, end' = True\<rparr>) \<and>
   PFX_iter_end (int_list [1, 2, 3] 3 True) \<lparr>cursor = 2, start = False, end' = True\<rparr> \<and>
   PFX_iter_prev (int_list [1, 2, 3] 3 True) \<lparr>cursor = 0, start = False, end' = False\<rparr>
     = (False, \<lparr>cursor = 0, start = True, end' = False\<rparr>)"
proof -
  have c: "count (int_list [1, 2, 3] 3 True) \<le> size_max"
    by (simp add: int_list_def size_max_def)
  have c3: "count (int_list [1, 2, 3] 3 True) = 3"
    by (simp add: int_list_def)
  from iter_boundary_sets_flag[OF c, of "\<lparr>cursor = 2, start = False, end' = False\<rparr>" 4]
       iter_boundary_sets_flag[OF c, of "\<lparr>cursor = 0, start = False, end' = False\<rparr>" 4]
  show ?thesis by (simp add: c3)
qed

text \<open>
  Claim C8, as the code has it: \<^verbatim>\<open>PFX##_iter_advance\<close> fails, without moving the
  cursor, exactly when the end flag is set, the cursor is on the last index,
  \<open>n = 0\<close> or \<open>cursor + n\<close> is not below \<^verbatim>\<open>count\<close>; otherwise the cursor moves by \<open>n\<close>,
  so a bulk advance does land on the last index \<^verbatim>\<open>count - 1\<close>. \<^verbatim>\<open>PFX##_iter_rewind\<close>
  fails exactly when the start flag is set, the cursor is 0, \<open>n = 0\<close> or \<open>n\<close> exceeds
  the cursor; otherwise the cursor moves back by \<open>n\<close>, so a bulk rewind does land on
  index 0.
\<close>

theorem iter_advance_rewind_boundary:
  assumes "cursor it + n \<le> size_max" and "cursor it < size_max"
  shows "(fst (PFX_iter_advance tgt it n) = False \<longleftrightarrow>
            end' it \<or> cursor it + 1 = count tgt \<or> n = 0 \<or> count tgt \<le> cursor it + n)
       \<and> cursor (snd (PFX_iter_advance tgt it n))
            = (if fst (PFX_iter_advance tgt it n) then cursor it + n else cursor it)
       \<and> (\<not> end' it \<and> 0 < n \<and> cursor it + n + 1 = count tgt \<longrightarrow>
            PFX_iter_advance tgt it n = (True, it\<lparr>start := False, cursor := count tgt - 1\<rparr>))
       \<and> (fst (PFX_iter_rewind tgt it n) = False \<longleftrightarrow>
            start it \<or> cursor it = 0 \<or> n = 0 \<or> cursor it < n)
       \<and> cursor (snd (PFX_iter_rewind tgt it n))
            = (if fst (PFX_iter_rewind tgt it n) then cursor it - n else cursor it)
       \<and> (\<not> start it \<and> 0 < n \<and> cursor it = n \<longrightarrow>
            PFX_iter_rewind tgt it n = (True, it\<lparr>end' := PFX_empty tgt, cursor := 0\<rparr>))"
proof -
  from assms have a1: "sz_add (cursor it) (Suc 0) = Suc (cursor it)"
    by (simp add: sz_add_eq)
  from assms have an: "sz_add (cursor it) n = cursor it + n"
    by (simp add: sz_add_eq)
  have sn: "n \<le> cursor it \<Longrightarrow> sz_sub (cursor it) n = cursor it - n"
    using assms by (simp add: sz_sub_eq)
  have A: "fst (PFX_iter_advance tgt it n) = False \<longleftrightarrow>
            end' it \<or> cursor it + 1 = count tgt \<or> n = 0 \<or> count tgt \<le> cursor it + n"
    by (simp add: PFX_iter_advance_def a1 an PFX_count_def)
  have B: "cursor (snd (PFX_iter_advance tgt it n))
            = (if fst (PFX_iter_advance tgt it n) then cursor it + n else cursor it)"
    by (simp add: PFX_iter_advance_def a1 an PFX_count_def)
  have C: "\<not> end' it \<and> 0 < n \<and> cursor it + n + 1 = count tgt \<longrightarrow>
            PFX_iter_advance tgt it n = (True, it\<lparr>start := False, cursor := count tgt - 1\<rparr>)"
    by (auto simp: PFX_iter_advance_def a1 an PFX_count_def PFX_empty_def)
  have D: "fst (PFX_iter_rewind tgt it n) = False \<longleftrightarrow>
            start it \<or> cursor it = 0 \<or> n = 0 \<or> cursor it < n"
    by (simp add: PFX_iter_rewind_def)
  have E: "cursor (snd (PFX_iter_rewind tgt it n))
            = (if fst (PFX_iter_rewind tgt it n) then cursor it - n else cursor it)"
    using sn by (simp add: PFX_iter_rewind_def)
  have F: "\<not> start it \<and> 0 < n \<and> cursor it = n \<longrightarrow>
            PFX_iter_rewind tgt it n = (True, it\<lparr>end' := PFX_empty tgt, cursor := 0\<rparr>)"
    using sn by (auto simp: PFX_iter_rewind_def)
  from A B C D E F show ?thesis by blast
qed

theorem iter_advance_rewind_boundary_witness:
  "PFX_iter_advance (int_list [1, 2, 3] 3 True) \<lparr>cursor = 0, start = True, end' = False\<rparr> 2
     = (True, \<lparr>cursor = 2, start = False, end' = False\<rparr>) \<and>
   PFX_iter_rewind (int_list [1, 2, 3] 3 True) \<lparr>cursor = 2, start = False, end' = False\<rparr> 2
     = (True, \<lparr>cursor = 0, start = False, end' = False\<rparr>)"
proof -
  have c3: "count (int_list [1, 2, 3] 3 True) = 3" "\<not> PFX_empty (int_list [1, 2, 3] 3 True)"
    by (simp_all add: int_list_def PFX_empty_def)
  have s: "(2::nat) \<le> size_max" "(0::nat) < size_max" "(4::nat) \<le> size_max" "(2::nat) < size_max"
    by (simp_all add: size_max_def)
  from iter_advance_rewind_boundary
         [of "\<lparr>cursor = 0, start = True, end' = False\<rparr>" 2 "int_list [1, 2, 3] 3 True"]
       iter_advance_rewind_boundary
         [of "\<lparr>cursor = 2, start = False, end' = False\<rparr>" 2 "int_list [1, 2, 3] 3 True"]
  show ?thesis using s by (simp add: c3)
qed

text \<open>A bulk advance from index 0 by 2 on three elements lands on the last index,
  and a bulk rewind from index 2 by 2 lands on index 0.\<close>

theorem iter_advance_lands_on_last_index:
  "fst (PFX_iter_advance (int_list [1, 2, 3] 3 True)
          \<lparr>cursor = 0, start = True, end' = False\<rparr> 2) \<and>
   cursor (snd (PFX_iter_advance (int_list [1, 2, 3] 3 True)
          \<lparr>cursor = 0, start = True, end' = False\<rparr> 2))
     = count (int_list [1, 2, 3] 3 True) - 1 \<and>
   fst (PFX_iter_rewind (int_list [1, 2, 3] 3 True)
          \<lparr>cursor = 2, start = False, end' = False\<rparr> 2) \<and>
   cursor (snd (PFX_iter_rewind (int_list [1, 2, 3] 3 True)
          \<lparr>cursor = 2, start = False, end' = False\<rparr> 2)) = 0"
  by (simp add: PFX_iter_advance_def PFX_iter_rewind_def int_list_def PFX_count_def
      PFX_empty_def sz_add_def sz_sub_def)

end
